theory Spec2Isabelle
  imports Main "HOL-Library.Word"
begin

section \<open>JavaScript strings\<close>

text \<open>
  A JavaScript string is a sequence of UTF-16 code units. The functions of
  \<^verbatim>\<open>App.tsx\<close> that are modelled here index, slice and compare strings code unit by
  code unit, and the regular expressions of the file carry no \<^verbatim>\<open>u\<close> flag, so they too
  work on code units.
\<close>

type_synonym jschar = "16 word"
type_synonym jsstring = "jschar list"

definition js :: "string \<Rightarrow> jsstring" where
  "js s = map of_char s"

definition DOT :: jschar where "DOT = 0x2E"
definition BACKSLASH :: jschar where "BACKSLASH = 0x5C"
definition SQUOTE :: jschar where "SQUOTE = 0x27"
definition DQUOTE :: jschar where "DQUOTE = 0x22"
definition HASH :: jschar where "HASH = 0x23"
definition BACKTICK :: jschar where "BACKTICK = 0x60"

text \<open>
  The line terminators of ECMAScript: LF, CR, LS and PS. The regular expression
  atom \<^verbatim>\<open>.\<close> matches every code unit but these.
\<close>

definition isLineTerminator :: "jschar \<Rightarrow> bool" where
  "isLineTerminator c \<longleftrightarrow> c = 0x0A \<or> c = 0x0D \<or> c = 0x2028 \<or> c = 0x2029"

text \<open>
  What \<^verbatim>\<open>String.prototype.trim\<close> strips and \<^verbatim>\<open>\s\<close> matches: the WhiteSpace code
  points (TAB, VT, FF, SP, NBSP, ZWNBSP and the category Zs) and the line terminators.
\<close>

definition isWhiteSpace :: "jschar \<Rightarrow> bool" where
  "isWhiteSpace c \<longleftrightarrow>
     c = 0x09 \<or> c = 0x0B \<or> c = 0x0C \<or> c = 0x20 \<or> c = 0xA0 \<or> c = 0x1680 \<or>
     (0x2000 \<le> c \<and> c \<le> 0x200A) \<or> c = 0x202F \<or> c = 0x205F \<or> c = 0x3000 \<or>
     c = 0xFEFF \<or> isLineTerminator c"

text \<open>\<^verbatim>\<open>\d\<close> is \<^verbatim>\<open>[0-9]\<close> and \<^verbatim>\<open>\w\<close> is \<^verbatim>\<open>[A-Za-z0-9_]\<close>.\<close>

definition isDigit :: "jschar \<Rightarrow> bool" where
  "isDigit c \<longleftrightarrow> 0x30 \<le> c \<and> c \<le> 0x39"

definition isWordChar :: "jschar \<Rightarrow> bool" where
  "isWordChar c \<longleftrightarrow>
     (0x41 \<le> c \<and> c \<le> 0x5A) \<or> (0x61 \<le> c \<and> c \<le> 0x7A) \<or> isDigit c \<or> c = 0x5F"

definition trim :: "jsstring \<Rightarrow> jsstring" where
  "trim s = rev (dropWhile isWhiteSpace (rev (dropWhile isWhiteSpace s)))"

text \<open>
  \<^verbatim>\<open>toLowerCase\<close> is a function of the platform, not of the repository. On the Basic
  Latin block it maps \<^verbatim>\<open>A\<close>..\<^verbatim>\<open>Z\<close> to \<^verbatim>\<open>a\<close>..\<^verbatim>\<open>z\<close> and changes nothing else; that
  is what is written here. Code units outside Basic Latin are left as they are, so
  the model agrees with the platform on every string of Basic Latin characters.
\<close>

definition toLowerCase :: "jsstring \<Rightarrow> jsstring" where
  "toLowerCase s = map (\<lambda>c. if 0x41 \<le> c \<and> c \<le> 0x5A then c + 0x20 else c) s"

text \<open>
  \<^verbatim>\<open>normalize("NFD")\<close> is a function of the platform as well. No Basic Latin
  character has a canonical decomposition, so on such strings it is the identity,
  which is what is written here.
\<close>

definition normalizeNFD :: "jsstring \<Rightarrow> jsstring" where
  "normalizeNFD s = s"

definition startsWith :: "jsstring \<Rightarrow> jsstring \<Rightarrow> bool" where
  "startsWith s p \<longleftrightarrow> take (length p) s = p"

text \<open>
  \<^verbatim>\<open>s.slice(a, b)\<close> for indices that are not negative (the only way the modelled
  code calls it): the code units from \<open>a\<close> up to \<open>b\<close>, nothing when \<open>b \<le> a\<close>.
\<close>

definition slice :: "jsstring \<Rightarrow> nat \<Rightarrow> nat \<Rightarrow> jsstring" where
  "slice s a b = take (b - a) (drop a s)"

text \<open>
  \<^verbatim>\<open>s.indexOf(c, pos)\<close> for a one-character needle: the first index at or after
  \<open>pos\<close> that holds \<open>c\<close>, and \<open>-1\<close> when there is none.
\<close>

fun indexOfFrom :: "jschar \<Rightarrow> nat \<Rightarrow> jsstring \<Rightarrow> int" where
  "indexOfFrom c i [] = -1"
| "indexOfFrom c i (x # xs) = (if x = c then int i else indexOfFrom c (Suc i) xs)"

definition indexOf :: "jsstring \<Rightarrow> jschar \<Rightarrow> nat \<Rightarrow> int" where
  "indexOf s c pos = indexOfFrom c (min pos (length s)) (drop pos s)"


section \<open>The shared normalisation utility\<close>

text \<open>
  \<^verbatim>\<open>normalize\<close> lower-cases, decomposes, and keeps the code units outside
  \<^verbatim>\<open>U+0300..U+036F\<close>.
\<close>

fun stripMarks :: "jsstring \<Rightarrow> jsstring \<Rightarrow> jsstring" where
  "stripMarks out [] = out"
| "stripMarks out (ch # s) =
     stripMarks (if ch < 0x0300 \<or> ch > 0x036F then out @ [ch] else out) s"

definition normalize :: "jsstring \<Rightarrow> jsstring" where
  "normalize str = stripMarks [] (normalizeNFD (toLowerCase str))"


section \<open>Content blocks and sections\<close>

datatype TopicBlock =
    H jsstring
  | P jsstring
  | UL "jsstring list"
  | OL "jsstring list"
  | CODE jsstring
  | CALLOUT "jsstring option" jsstring
  | TABLE "jsstring list" "jsstring list list"
  | IMG jsstring jsstring "jsstring option"

record Section =
  title :: jsstring
  blocks :: "TopicBlock list"

subsection \<open>Heading classification\<close>

text \<open>
  \<^verbatim>\<open>isSubHeading\<close> looks for the first dot, then for a second dot after it, and
  tests the two runs that the dots delimit.
\<close>

definition isSubHeading :: "jsstring \<Rightarrow> bool" where
  "isSubHeading t =
     (let s = trim t;
          d1 = indexOf s DOT 0
      in if d1 \<le> 0 then False
         else let d2 = indexOf s DOT (nat d1 + 1)
              in if d2 \<le> d1 + 1 then False
                 else let a = slice s 0 (nat d1);
                          b = slice s (nat d1 + 1) (nat d2)
                      in if a = [] \<or> b = [] then False
                         else if \<not> list_all (\<lambda>ch. \<not> (ch < 0x30 \<or> ch > 0x39)) a then False
                         else if \<not> list_all (\<lambda>ch. \<not> (ch < 0x30 \<or> ch > 0x39)) b then False
                         else True)"

definition isExerciseHeading :: "jsstring \<Rightarrow> bool" where
  "isExerciseHeading t =
     (let s = toLowerCase (trim t)
      in if \<not> startsWith s (js ''ejercicio'') then False
         else let rest = trim (drop (length (js ''ejercicio'')) s)
              in case rest of
                   [] \<Rightarrow> False
                 | r0 # _ \<Rightarrow> r0 \<ge> 0x30 \<and> r0 \<le> 0x39)"

subsection \<open>The fold that builds the sections\<close>

text \<open>
  \<^verbatim>\<open>sections\<close> is an array of section objects and \<^verbatim>\<open>current\<close> is a reference to
  one of them (or \<^verbatim>\<open>null\<close>): a push onto \<^verbatim>\<open>current.blocks\<close> changes the object
  that \<^verbatim>\<open>sections\<close> holds. The reference is modelled as the index of the object in
  \<^verbatim>\<open>sections\<close>.
\<close>

record fold_state =
  sections :: "Section list"
  current :: "nat option"

definition init_state :: fold_state where
  "init_state = \<lparr>sections = [], current = None\<rparr>"

text \<open>\<^verbatim>\<open>current = { title: t, blocks: [] }; sections.push(current)\<close>\<close>

definition newSection :: "jsstring \<Rightarrow> fold_state \<Rightarrow> fold_state" where
  "newSection t st =
     \<lparr>sections = sections st @ [\<lparr>title = t, blocks = []\<rparr>],
      current = Some (length (sections st))\<rparr>"

text \<open>
  \<^verbatim>\<open>if (!current) { ... }; current.blocks.push(b)\<close>. After the guard
  \<^verbatim>\<open>current\<close> is a section, so the branch for \<^verbatim>\<open>null\<close> is never taken.
\<close>

definition pushBlock :: "TopicBlock \<Rightarrow> fold_state \<Rightarrow> fold_state" where
  "pushBlock b st =
     (let st1 = (if current st = None then newSection [] st else st)
      in case current st1 of
           None \<Rightarrow> st1
         | Some i \<Rightarrow>
             st1\<lparr>sections :=
                   (sections st1)[i := (sections st1 ! i)
                                        \<lparr>blocks := blocks (sections st1 ! i) @ [b]\<rparr>]\<rparr>)"

text \<open>
  The callback of \<^verbatim>\<open>blocks.forEach\<close>. A block is an object of one of the eight
  variants, so the test \<^verbatim>\<open>if (!b) return\<close> never fires. The text of a heading is
  trimmed before it is classified; the title of a new section is the text as it is.
\<close>

fun forEach_step :: "TopicBlock \<Rightarrow> fold_state \<Rightarrow> fold_state" where
  "forEach_step (H text) st =
     (let t = trim text
      in if isSubHeading t \<or> isExerciseHeading t then pushBlock (H text) st
         else newSection text st)"
| "forEach_step b st = pushBlock b st"

text \<open>
  The sections of a list of blocks. For the empty list the component returns before
  the fold; there are no sections then either.
\<close>

definition TopicBlocks_sections :: "TopicBlock list \<Rightarrow> Section list" where
  "TopicBlocks_sections bs = sections (fold forEach_step bs init_state)"

text \<open>
  A heading that the fold consumes as the title of a new section: one that is
  neither a sub-heading nor an exercise heading.
\<close>

fun isTopLevelHeading :: "TopicBlock \<Rightarrow> bool" where
  "isTopLevelHeading (H text) =
     (\<not> isSubHeading (trim text) \<and> \<not> isExerciseHeading (trim text))"
| "isTopLevelHeading _ = False"

fun headingText :: "TopicBlock \<Rightarrow> jsstring" where
  "headingText (H text) = text"
| "headingText _ = []"

text \<open>
  Appending a block to the current section, on the list of sections alone: the block
  goes to the end of the block list of the last section, and into a new anonymous
  section when there is no section yet.
\<close>

definition appendToLast :: "TopicBlock \<Rightarrow> Section list \<Rightarrow> Section list" where
  "appendToLast b secs =
     (if secs = [] then [\<lparr>title = [], blocks = [b]\<rparr>]
      else butlast secs @ [(last secs)\<lparr>blocks := blocks (last secs) @ [b]\<rparr>])"

text \<open>
  The title of the anonymous section, when the input opens with a block that is
  not a top-level heading.
\<close>

definition leadingAnonymous :: "TopicBlock list \<Rightarrow> jsstring list" where
  "leadingAnonymous bs =
     (case bs of [] \<Rightarrow> [] | b # _ \<Rightarrow> if isTopLevelHeading b then [] else [[]])"

text \<open>The reference \<^verbatim>\<open>current\<close> is \<^verbatim>\<open>null\<close> or points at the last section.\<close>

definition current_ok :: "fold_state \<Rightarrow> bool" where
  "current_ok st \<longleftrightarrow>
     (if sections st = [] then current st = None
      else current st = Some (length (sections st) - 1))"


section \<open>The inline renderer\<close>

fun orElse :: "'a option \<Rightarrow> 'a option \<Rightarrow> 'a option" where
  "orElse (Some x) _ = Some x"
| "orElse None y = y"

text \<open>
  A greedy quantifier with at least one iteration, followed by the rest of the
  pattern: the matcher tries the longest run first and gives code units back one
  at a time. \<open>tryDown f n\<close> tries \<open>f n\<close>, \<open>f (n - 1)\<close>, ..., \<open>f 1\<close> and returns
  the first success.
\<close>

fun tryDown :: "(nat \<Rightarrow> 'a option) \<Rightarrow> nat \<Rightarrow> 'a option" where
  "tryDown f 0 = None"
| "tryDown f (Suc n) = orElse (f (Suc n)) (tryDown f n)"

text \<open>
  The pattern of \<^verbatim>\<open>RichText\<close>, a backtick, \<^verbatim>\<open>([^`]+)\<close> and a backtick, tried at
  the start of \<open>s\<close>. The result is the length of the capture.
\<close>

definition matchCode :: "jsstring \<Rightarrow> nat option" where
  "matchCode s =
     (case s of
        [] \<Rightarrow> None
      | c # cs \<Rightarrow>
          if c = BACKTICK
          then tryDown (\<lambda>n. if n < length cs \<and> cs ! n = BACKTICK then Some n else None)
                 (length (takeWhile (\<lambda>x. x \<noteq> BACKTICK) cs))
          else None)"

text \<open>
  \<^verbatim>\<open>raw.split(re)\<close> with a capturing group: the text before each match, then the
  capture, and at the end the text after the last match. \<open>acc\<close> is the text
  since the last match; where the pattern does not match, the search moves on by
  one code unit. A match has at least three code units, so the test of the
  language definition for an empty match at the split position never fires.
\<close>

function splitCode :: "jsstring \<Rightarrow> jsstring \<Rightarrow> jsstring list" where
  "splitCode acc [] = [acc]"
| "splitCode acc (c # cs) =
     (case matchCode (c # cs) of
        None \<Rightarrow> splitCode (acc @ [c]) cs
      | Some n \<Rightarrow> acc # take n cs # splitCode [] (drop (Suc n) cs))"
  by pat_completeness auto
termination
  by (relation "measure (\<lambda>(acc, s). length s)") auto

datatype inline = SpanEl jsstring | CodeEl jsstring

text \<open>The callback of \<^verbatim>\<open>parts.map\<close>: the parts at odd indices are code.\<close>

definition renderPart :: "nat \<times> jsstring \<Rightarrow> inline" where
  "renderPart = (\<lambda>(i, seg). if i mod 2 = 1 then CodeEl seg else SpanEl seg)"

definition RichText :: "jsstring \<Rightarrow> inline list" where
  "RichText text =
     (let raw = text;
          parts = splitCode [] raw
      in map renderPart (enumerate 0 parts))"

text \<open>The source text that an element stands for.\<close>

fun inlineSource :: "inline \<Rightarrow> jsstring" where
  "inlineSource (SpanEl seg) = seg"
| "inlineSource (CodeEl seg) = BACKTICK # seg @ [BACKTICK]"

fun isCodeEl :: "inline \<Rightarrow> bool" where
  "isCodeEl (CodeEl _) = True"
| "isCodeEl (SpanEl _) = False"


section \<open>The tokenizer\<close>

definition PY_KEYWORDS :: "jsstring list" where
  "PY_KEYWORDS = map js
     [''as'', ''assert'', ''break'', ''class'', ''continue'', ''def'', ''del'', ''elif'',
      ''else'', ''except'', ''False'', ''finally'', ''for'', ''from'', ''global'', ''if'',
      ''import'', ''in'', ''is'', ''lambda'', ''None'', ''nonlocal'', ''not'', ''or'',
      ''pass'', ''raise'', ''return'', ''True'', ''try'', ''while'', ''with'', ''yield'']"

definition PY_BUILTINS :: "jsstring list" where
  "PY_BUILTINS = map js
     [''print'', ''len'', ''range'', ''int'', ''float'', ''str'', ''list'', ''dict'',
      ''set'', ''tuple'', ''input'', ''type'', ''help'', ''sum'']"

subsection \<open>The scan for the start of the comment\<close>

text \<open>
  The first loop of \<^verbatim>\<open>tokenizePythonLine\<close>. The arguments are the three flags,
  the index \<open>i\<close> and the rest of the line from \<open>i\<close>; the result is
  \<^verbatim>\<open>commentAt\<close>.
\<close>

fun commentScan :: "bool \<Rightarrow> bool \<Rightarrow> bool \<Rightarrow> nat \<Rightarrow> jsstring \<Rightarrow> int" where
  "commentScan inSingle inDouble escaped i [] = -1"
| "commentScan inSingle inDouble escaped i (ch # rest) =
     (if escaped then commentScan inSingle inDouble False (Suc i) rest
      else if ch = BACKSLASH then commentScan inSingle inDouble True (Suc i) rest
      else if \<not> inDouble \<and> ch = SQUOTE
        then commentScan (\<not> inSingle) inDouble escaped (Suc i) rest
      else if \<not> inSingle \<and> ch = DQUOTE
        then commentScan inSingle (\<not> inDouble) escaped (Suc i) rest
      else if \<not> inSingle \<and> \<not> inDouble \<and> ch = HASH then int i
      else commentScan inSingle inDouble escaped (Suc i) rest)"

subsection \<open>The regular expression of the code part\<close>

text \<open>
  The pattern has six alternatives, tried in order at one position:
  \<^verbatim>\<open>"([^"\\]|\\.)*"\<close>, \<^verbatim>\<open>'([^'\\]|\\.)*'\<close>, \<^verbatim>\<open>\b[A-Za-z_]\w*\b\<close>,
  \<^verbatim>\<open>\b\d+(?:\.\d+)?\b\<close>, \<^verbatim>\<open>\s+\<close> and \<^verbatim>\<open>.\<close>. Each is a function from the input
  at that position to the length of its match.

  In a quoted run, an iteration of the starred group consumes one code unit that is
  neither the quote nor a backslash, or a backslash and one code unit that is not a
  line terminator. Which of the two applies is decided by the code unit at hand, and
  neither applies to the quote, so the closing quote can only follow the longest run
  of iterations: giving iterations back never helps. \<open>quotedRun q s\<close> is the length
  of the starred group and the closing quote, on the input \<open>s\<close> after the opening
  quote.
\<close>

fun quotedRun :: "jschar \<Rightarrow> jsstring \<Rightarrow> nat option" where
  "quotedRun q [] = None"
| "quotedRun q (c # cs) =
     (if c = q then Some 1
      else if c = BACKSLASH then
        (case cs of
           [] \<Rightarrow> None
         | d # ds \<Rightarrow>
             if isLineTerminator d then None
             else map_option (\<lambda>n. n + 2) (quotedRun q ds))
      else map_option Suc (quotedRun q cs))"

definition alt_quoted :: "jschar \<Rightarrow> jsstring \<Rightarrow> nat option" where
  "alt_quoted q s =
     (case s of
        [] \<Rightarrow> None
      | c # cs \<Rightarrow> if c = q then map_option Suc (quotedRun q cs) else None)"

text \<open>
  \<^verbatim>\<open>\b\<close> at index \<open>i\<close> of the input \<open>s\<close>, where \<open>prev\<close> is the code unit before
  \<open>s\<close> in the code part (none at its start): exactly one of the two neighbours is
  a word character.
\<close>

definition wordBefore :: "jschar option \<Rightarrow> jsstring \<Rightarrow> nat \<Rightarrow> bool" where
  "wordBefore prev s i =
     (if i = 0 then (case prev of None \<Rightarrow> False | Some p \<Rightarrow> isWordChar p)
      else i - 1 < length s \<and> isWordChar (s ! (i - 1)))"

definition wordAt :: "jsstring \<Rightarrow> nat \<Rightarrow> bool" where
  "wordAt s i \<longleftrightarrow> i < length s \<and> isWordChar (s ! i)"

definition wordBoundary :: "jschar option \<Rightarrow> jsstring \<Rightarrow> nat \<Rightarrow> bool" where
  "wordBoundary prev s i \<longleftrightarrow> wordBefore prev s i \<noteq> wordAt s i"

definition isIdentStart :: "jschar \<Rightarrow> bool" where
  "isIdentStart c \<longleftrightarrow> (0x41 \<le> c \<and> c \<le> 0x5A) \<or> (0x61 \<le> c \<and> c \<le> 0x7A) \<or> c = 0x5F"

definition boundaryEnd :: "jschar option \<Rightarrow> jsstring \<Rightarrow> nat \<Rightarrow> nat option" where
  "boundaryEnd prev s n = (if wordBoundary prev s n then Some n else None)"

definition alt_ident :: "jschar option \<Rightarrow> jsstring \<Rightarrow> nat option" where
  "alt_ident prev s =
     (case s of
        [] \<Rightarrow> None
      | c # cs \<Rightarrow>
          if wordBoundary prev s 0 \<and> isIdentStart c
          then orElse
                 (tryDown (\<lambda>n. boundaryEnd prev s (Suc n))
                    (length (takeWhile isWordChar cs)))
                 (boundaryEnd prev s 1)
          else None)"

text \<open>
  The optional group \<^verbatim>\<open>(?:\.\d+)?\<close> after \<open>n\<close> digits: the matcher tries the group
  first, and the pattern without it when the group or the \<^verbatim>\<open>\b\<close> after it fails.
\<close>

definition alt_fraction :: "jschar option \<Rightarrow> jsstring \<Rightarrow> nat \<Rightarrow> nat option" where
  "alt_fraction prev s n =
     (if n < length s \<and> s ! n = DOT
      then tryDown (\<lambda>m. boundaryEnd prev s (n + 1 + m))
             (length (takeWhile isDigit (drop (n + 1) s)))
      else None)"

definition alt_number :: "jschar option \<Rightarrow> jsstring \<Rightarrow> nat option" where
  "alt_number prev s =
     (if wordBoundary prev s 0
      then tryDown (\<lambda>n. orElse (alt_fraction prev s n) (boundaryEnd prev s n))
             (length (takeWhile isDigit s))
      else None)"

definition alt_space :: "jsstring \<Rightarrow> nat option" where
  "alt_space s = tryDown Some (length (takeWhile isWhiteSpace s))"

definition alt_any :: "jsstring \<Rightarrow> nat option" where
  "alt_any s = (case s of [] \<Rightarrow> None | c # _ \<Rightarrow> if isLineTerminator c then None else Some 1)"

definition matchAt :: "jschar option \<Rightarrow> jsstring \<Rightarrow> nat option" where
  "matchAt prev s =
     orElse (alt_quoted DQUOTE s)
    (orElse (alt_quoted SQUOTE s)
    (orElse (alt_ident prev s)
    (orElse (alt_number prev s)
    (orElse (alt_space s)
            (alt_any s)))))"

text \<open>
  \<^verbatim>\<open>codePart.matchAll(re)\<close> with the texts of the matches: the search starts
  where the last match ended; where the pattern does not match, it moves on by one
  code unit, which is then part of no match; after an empty match it moves on by
  one code unit as well.
\<close>

function matchAll :: "jschar option \<Rightarrow> jsstring \<Rightarrow> jsstring list" where
  "matchAll prev [] = []"
| "matchAll prev (c # cs) =
     (case matchAt prev (c # cs) of
        None \<Rightarrow> matchAll (Some c) cs
      | Some n \<Rightarrow>
          take n (c # cs) #
          matchAll (Some (last (take (max 1 n) (c # cs)))) (drop (max 1 n) (c # cs)))"
  by pat_completeness auto
termination
  by (relation "measure (\<lambda>(prev, s). length s)") auto

subsection \<open>Classification\<close>

text \<open>
  The elements that \<^verbatim>\<open>tokenizePythonLine\<close> returns differ in the prefix of their
  key and in their colour class: \<^verbatim>\<open>ws-\<close>, \<^verbatim>\<open>s-\<close>, \<^verbatim>\<open>n-\<close>, \<^verbatim>\<open>k-\<close>, \<^verbatim>\<open>b-\<close>,
  \<^verbatim>\<open>t-\<close> and \<^verbatim>\<open>c\<close>.
\<close>

datatype token_class =
  TokWhitespace | TokString | TokNumber | TokKeyword | TokBuiltin | TokPlain | TokComment

type_synonym token = "token_class \<times> jsstring"

text \<open>The callback of \<^verbatim>\<open>tokens.map\<close>; \<open>None\<close> is \<^verbatim>\<open>null\<close>.\<close>

definition renderToken :: "jsstring \<Rightarrow> token option" where
  "renderToken t =
     (if t = [] then None
      else if length (trim t) = 0 then Some (TokWhitespace, t)
      else if startsWith t [DQUOTE] \<or> startsWith t [SQUOTE] then Some (TokString, t)
      else if (case t of [] \<Rightarrow> False | c # _ \<Rightarrow> isDigit c) then Some (TokNumber, t)
      else if t \<in> set PY_KEYWORDS then Some (TokKeyword, t)
      else if t \<in> set PY_BUILTINS then Some (TokBuiltin, t)
      else Some (TokPlain, t))"

definition commentAt :: "jsstring \<Rightarrow> int" where
  "commentAt line = commentScan False False False 0 line"

definition codePart :: "jsstring \<Rightarrow> jsstring" where
  "codePart line = (if commentAt line = -1 then line else slice line 0 (nat (commentAt line)))"

definition commentPart :: "jsstring \<Rightarrow> jsstring" where
  "commentPart line = (if commentAt line = -1 then [] else drop (nat (commentAt line)) line)"

definition tokenizePythonLine :: "jsstring \<Rightarrow> token option list" where
  "tokenizePythonLine line =
     (let tokens = matchAll None (codePart line);
          rendered = map renderToken tokens
      in if commentPart line \<noteq> [] then rendered @ [Some (TokComment, commentPart line)]
         else rendered)"

text \<open>The text that an element shows; \<^verbatim>\<open>null\<close> shows nothing.\<close>

fun tokenText :: "token option \<Rightarrow> jsstring" where
  "tokenText None = []"
| "tokenText (Some (k, t)) = t"


section \<open>Colour names\<close>

definition ColorName :: "jsstring \<Rightarrow> jsstring" where
  "ColorName name =
     (let n = normalize name
      in if n = js ''negro'' then js ''text-slate-900''
         else if n = js ''naranja'' then js ''text-orange-500''
         else if n = js ''azul'' then js ''text-blue-500''
         else if n = js ''morado'' then js ''text-violet-600''
         else if n = js ''rojo oscuro'' then js ''text-red-800''
         else if n = js ''rojo claro'' then js ''text-red-500''
         else if n = js ''verde'' then js ''text-emerald-600''
         else js ''text-slate-900'')"



section \<open>Facts about strings and heading classification\<close>

lemma indexOfFrom_eq:
  "indexOfFrom c i xs = (if c \<in> set xs then int (i + length (takeWhile (\<lambda>x. x \<noteq> c) xs)) else -1)"
  by (induction xs arbitrary: i) auto

lemma takeWhile_neq_all: "c \<notin> set a \<Longrightarrow> takeWhile (\<lambda>x. x \<noteq> c) a = a"
  by (induction a) auto

lemma indexOf_no: "c \<notin> set (drop pos s) \<Longrightarrow> indexOf s c pos = -1"
  by (simp add: indexOf_def indexOfFrom_eq)

lemma indexOf_first:
  "c \<notin> set a \<Longrightarrow> indexOf (p @ a @ c # r) c (length p) = int (length p + length a)"
  by (simp add: indexOf_def indexOfFrom_eq takeWhile_tail takeWhile_neq_all)

lemma indexOf_none:
  "c \<notin> set a \<Longrightarrow> indexOf (p @ a) c (length p) = -1"
  by (simp add: indexOf_def indexOfFrom_eq)

lemma digit_test: "(\<not> (ch < 0x30 \<or> ch > 0x39)) = isDigit ch"
  by (auto simp: isDigit_def)

lemma DOT_not_digit: "\<not> isDigit DOT"
  by (simp add: isDigit_def DOT_def)

lemma digits_no_DOT: "list_all isDigit a \<Longrightarrow> DOT \<notin> set a"
  using DOT_not_digit by (auto simp: list_all_iff)

lemma isSubHeading_two_dots:
  assumes "DOT \<notin> set a" "DOT \<notin> set b" "trim t = a @ DOT # b @ DOT # rest"
  shows "isSubHeading t \<longleftrightarrow> a \<noteq> [] \<and> b \<noteq> [] \<and> list_all isDigit a \<and> list_all isDigit b"
proof -
  have d1: "indexOf (trim t) DOT 0 = int (length a)"
    using indexOf_first [of DOT a "[]" "b @ DOT # rest"] assms by simp
  have d2: "indexOf (trim t) DOT (length a + 1) = int (length a + 1 + length b)"
    using indexOf_first [of DOT b "a @ [DOT]" rest] assms by simp
  show ?thesis
    unfolding isSubHeading_def Let_def d1 digit_test using d2
    by (auto simp: assms(3) slice_def)
qed

lemma isSubHeading_one_dot:
  assumes "DOT \<notin> set a" "DOT \<notin> set r" "trim t = a @ DOT # r"
  shows "\<not> isSubHeading t"
proof -
  have d1: "indexOf (trim t) DOT 0 = int (length a)"
    using indexOf_first [of DOT a "[]" r] assms by simp
  have d2: "indexOf (trim t) DOT (length a + 1) = -1"
    using indexOf_none [of DOT r "a @ [DOT]"] assms by simp
  show ?thesis
    unfolding isSubHeading_def Let_def d1 using d2 by simp
qed

lemma isSubHeading_no_dot:
  assumes "DOT \<notin> set (trim t)"
  shows "\<not> isSubHeading t"
  unfolding isSubHeading_def Let_def using indexOf_no [of DOT 0 "trim t"] assms by simp

lemma split_first: "c \<in> set s \<Longrightarrow> \<exists>a r. s = a @ c # r \<and> c \<notin> set a"
  by (meson split_list_first)

lemma isSubHeading_iff:
  "isSubHeading t \<longleftrightarrow>
     (\<exists>a b rest. trim t = a @ DOT # b @ DOT # rest \<and> a \<noteq> [] \<and> b \<noteq> [] \<and>
        list_all isDigit a \<and> list_all isDigit b)"
proof
  assume sub: "isSubHeading t"
  then have "DOT \<in> set (trim t)" using isSubHeading_no_dot by blast
  from split_first [OF this] obtain a r where ar: "trim t = a @ DOT # r" "DOT \<notin> set a"
    by auto
  with sub have "DOT \<in> set r" using isSubHeading_one_dot [of a r t] by auto
  from split_first [OF this] obtain b rest where br: "r = b @ DOT # rest" "DOT \<notin> set b"
    by auto
  from sub ar br isSubHeading_two_dots [of a b t rest]
  show "\<exists>a b rest. trim t = a @ DOT # b @ DOT # rest \<and> a \<noteq> [] \<and> b \<noteq> [] \<and>
        list_all isDigit a \<and> list_all isDigit b"
    by auto
next
  assume "\<exists>a b rest. trim t = a @ DOT # b @ DOT # rest \<and> a \<noteq> [] \<and> b \<noteq> [] \<and>
        list_all isDigit a \<and> list_all isDigit b"
  then obtain a b rest where h: "trim t = a @ DOT # b @ DOT # rest" "a \<noteq> []" "b \<noteq> []"
        "list_all isDigit a" "list_all isDigit b" by blast
  then show "isSubHeading t"
    using isSubHeading_two_dots [of a b t rest] digits_no_DOT [of a] digits_no_DOT [of b] by simp
qed

lemma trim_Nil_iff: "trim s = [] \<longleftrightarrow> (\<forall>c\<in>set s. isWhiteSpace c)"
proof -
  have "(\<forall>x\<in>set (dropWhile isWhiteSpace s). isWhiteSpace x) \<longleftrightarrow> (\<forall>x\<in>set s. isWhiteSpace x)"
    (is "?L \<longleftrightarrow> ?R")
  proof
    assume l: ?L
    have "dropWhile isWhiteSpace s = []"
    proof (rule ccontr)
      assume ne: "dropWhile isWhiteSpace s \<noteq> []"
      then have "\<not> isWhiteSpace (hd (dropWhile isWhiteSpace s))" by (rule hd_dropWhile)
      moreover have "hd (dropWhile isWhiteSpace s) \<in> set (dropWhile isWhiteSpace s)"
        using ne by simp
      ultimately show False using l by blast
    qed
    then show ?R by (simp only: dropWhile_eq_Nil_conv)
  next
    assume ?R
    then show ?L by (meson set_dropWhileD)
  qed
  then show ?thesis by (simp add: trim_def)
qed

lemma trim_Cons:
  assumes "dropWhile isWhiteSpace r = d # r'"
  shows "trim r = d # rev (dropWhile isWhiteSpace (rev r'))"
proof -
  have "\<not> isWhiteSpace d" using assms hd_dropWhile [of isWhiteSpace r] by auto
  then have "dropWhile isWhiteSpace (rev r' @ [d]) = dropWhile isWhiteSpace (rev r') @ [d]"
    by (simp add: dropWhile_append3)
  then show ?thesis by (simp add: trim_def assms)
qed

lemma digit_not_ws: "isDigit d \<Longrightarrow> \<not> isWhiteSpace d"
  unfolding isDigit_def isWhiteSpace_def isLineTerminator_def
  by (auto simp: word_le_nat_alt)


lemma isExerciseHeading_iff:
  "isExerciseHeading t \<longleftrightarrow>
     (\<exists>ws d rest. toLowerCase (trim t) = js ''ejercicio'' @ ws @ d # rest \<and>
        list_all isWhiteSpace ws \<and> isDigit d)"
proof
  assume ex: "isExerciseHeading t"
  let ?s = "toLowerCase (trim t)"
  let ?r = "drop (length (js ''ejercicio'')) ?s"
  from ex have sw: "take (length (js ''ejercicio'')) ?s = js ''ejercicio''"
    by (auto simp: isExerciseHeading_def Let_def startsWith_def split: if_splits)
  from ex obtain d r1 where tr: "trim ?r = d # r1" and dd: "isDigit d"
    by (auto simp: isExerciseHeading_def Let_def isDigit_def split: if_splits list.splits)
  then have "dropWhile isWhiteSpace ?r \<noteq> []"
    using trim_Nil_iff [of ?r] by (auto simp: dropWhile_eq_Nil_conv)
  then obtain d' r2 where dw: "dropWhile isWhiteSpace ?r = d' # r2"
    by (cases "dropWhile isWhiteSpace ?r") auto
  with tr trim_Cons [OF dw] have "d' = d" by simp
  have "?r = takeWhile isWhiteSpace ?r @ d # r2"
    using dw \<open>d' = d\<close> takeWhile_dropWhile_id [of isWhiteSpace ?r] by simp
  moreover have "?s = js ''ejercicio'' @ ?r"
    using sw append_take_drop_id [of "length (js ''ejercicio'')" ?s] by simp
  moreover have "list_all isWhiteSpace (takeWhile isWhiteSpace ?r)"
    by (auto simp: list_all_iff dest: set_takeWhileD)
  ultimately show "\<exists>ws d rest. ?s = js ''ejercicio'' @ ws @ d # rest \<and>
        list_all isWhiteSpace ws \<and> isDigit d"
    using dd by (intro exI [of _ "takeWhile isWhiteSpace ?r"] exI [of _ d] exI [of _ r2]) simp
next
  assume "\<exists>ws d rest. toLowerCase (trim t) = js ''ejercicio'' @ ws @ d # rest \<and>
        list_all isWhiteSpace ws \<and> isDigit d"
  then obtain ws d rest where h: "toLowerCase (trim t) = js ''ejercicio'' @ ws @ d # rest"
     "list_all isWhiteSpace ws" "isDigit d" by blast
  have dw: "dropWhile isWhiteSpace (ws @ d # rest) = d # rest"
    using h(2,3) digit_not_ws by (simp add: dropWhile_append2 list_all_iff)
  show "isExerciseHeading t"
    using trim_Cons [OF dw] h(3)
    by (simp add: isExerciseHeading_def Let_def startsWith_def h(1) isDigit_def)
qed


section \<open>Facts about the fold\<close>

lemma current_ok_init: "current_ok init_state"
  by (simp add: current_ok_def init_state_def)

lemma current_ok_newSection: "current_ok (newSection t st)"
  by (simp add: current_ok_def newSection_def)

lemma sections_newSection:
  "sections (newSection t st) = sections st @ [\<lparr>title = t, blocks = []\<rparr>]"
  by (simp add: newSection_def)

lemma update_last: "xs \<noteq> [] \<Longrightarrow> xs[length xs - Suc 0 := y] = butlast xs @ [y]"
  by (induction xs rule: rev_induct) (simp_all add: list_update_append)

lemma sections_pushBlock:
  assumes "current_ok st"
  shows "sections (pushBlock b st) = appendToLast b (sections st)"
proof (cases "sections st = []")
  case True
  with assms show ?thesis
    by (simp add: pushBlock_def current_ok_def newSection_def appendToLast_def)
next
  case False
  with assms have cur: "current st = Some (length (sections st) - 1)"
    by (simp add: current_ok_def)
  show ?thesis
    using False
    by (simp add: pushBlock_def cur appendToLast_def update_last last_conv_nth)
qed

lemma current_ok_pushBlock:
  assumes "current_ok st"
  shows "current_ok (pushBlock b st)"
proof (cases "sections st = []")
  case True
  with assms show ?thesis
    by (simp add: pushBlock_def current_ok_def newSection_def)
next
  case False
  with assms have cur: "current st = Some (length (sections st) - 1)"
    by (simp add: current_ok_def)
  show ?thesis
    using False by (simp add: pushBlock_def cur current_ok_def)
qed

lemma current_ok_step: "current_ok st \<Longrightarrow> current_ok (forEach_step b st)"
  by (cases b) (simp_all add: Let_def current_ok_newSection current_ok_pushBlock)

lemma sections_step:
  "current_ok st \<Longrightarrow>
   sections (forEach_step b st) =
     (if isTopLevelHeading b then sections st @ [\<lparr>title = headingText b, blocks = []\<rparr>]
      else appendToLast b (sections st))"
  by (cases b) (simp_all add: Let_def sections_newSection sections_pushBlock)

lemma current_ok_fold: "current_ok st \<Longrightarrow> current_ok (fold forEach_step bs st)"
  by (induction bs arbitrary: st) (simp_all add: current_ok_step)

lemma sections_Nil: "TopicBlocks_sections [] = []"
  by (simp add: TopicBlocks_sections_def init_state_def)

lemma sections_snoc:
  "TopicBlocks_sections (bs @ [b]) =
     (if isTopLevelHeading b
      then TopicBlocks_sections bs @ [\<lparr>title = headingText b, blocks = []\<rparr>]
      else appendToLast b (TopicBlocks_sections bs))"
  using sections_step [OF current_ok_fold [OF current_ok_init], of b bs]
  by (simp add: TopicBlocks_sections_def)

lemma blocks_appendToLast:
  "concat (map blocks (appendToLast b secs)) = concat (map blocks secs) @ [b]"
  by (cases secs rule: rev_cases) (simp_all add: appendToLast_def)

lemma sections_blocks:
  "concat (map blocks (TopicBlocks_sections bs)) = filter (\<lambda>b. \<not> isTopLevelHeading b) bs"
  by (induction bs rule: rev_induct) (simp_all add: sections_Nil sections_snoc blocks_appendToLast)

lemma titles_appendToLast:
  "map title (appendToLast b secs) = (if secs = [] then [[]] else map title secs)"
  by (cases secs rule: rev_cases) (simp_all add: appendToLast_def)

lemma sections_empty_iff: "TopicBlocks_sections bs = [] \<longleftrightarrow> bs = []"
  by (induction bs rule: rev_induct) (simp_all add: sections_Nil sections_snoc appendToLast_def)

lemma leadingAnonymous_snoc:
  "leadingAnonymous (bs @ [b]) = (if bs = [] then (if isTopLevelHeading b then [] else [[]]) else leadingAnonymous bs)"
  by (cases bs) (simp_all add: leadingAnonymous_def)

lemma sections_titles:
  "map title (TopicBlocks_sections bs) =
     leadingAnonymous bs @ map headingText (filter isTopLevelHeading bs)"
proof (induction bs rule: rev_induct)
  case Nil
  show ?case by (simp add: sections_Nil leadingAnonymous_def)
next
  case (snoc b bs)
  show ?case
  proof (cases "bs = []")
    case True
    then show ?thesis
      using sections_snoc [of "[]" b]
      by (simp add: sections_Nil leadingAnonymous_def appendToLast_def)
  next
    case False
    then have ne: "TopicBlocks_sections bs \<noteq> []" by (simp add: sections_empty_iff)
    show ?thesis
      using snoc False ne
      by (simp add: sections_snoc titles_appendToLast leadingAnonymous_snoc)
  qed
qed


section \<open>Facts about the regular expression of the code part\<close>

lemma orElse_None_iff: "orElse a b = None \<longleftrightarrow> a = None \<and> b = None"
  by (cases a) simp_all

lemma orElse_Some: "orElse a b = Some r \<Longrightarrow> a = Some r \<or> (a = None \<and> b = Some r)"
  by (cases a) simp_all

lemma tryDown_Some: "tryDown f n = Some r \<Longrightarrow> \<exists>j. 1 \<le> j \<and> j \<le> n \<and> f j = Some r"
proof (induction n)
  case 0
  then show ?case by simp
next
  case (Suc n)
  from Suc.prems have "f (Suc n) = Some r \<or> tryDown f n = Some r"
    by (auto dest: orElse_Some)
  then show ?case
  proof
    assume "f (Suc n) = Some r"
    then show ?thesis by (intro exI [of _ "Suc n"]) simp
  next
    assume "tryDown f n = Some r"
    with Suc.IH obtain j where "1 \<le> j" "j \<le> n" "f j = Some r" by blast
    then show ?thesis by (intro exI [of _ j]) simp
  qed
qed


lemma quotedRun_Some:
  "quotedRun q s = Some n \<Longrightarrow> 1 \<le> n \<and> n \<le> length s \<and> s ! (n - 1) = q"
proof (induction q s arbitrary: n rule: quotedRun.induct)
  case (1 q)
  then show ?case by simp
next
  case (2 q c cs)
  show ?case
  proof (cases "c = q")
    case True
    with "2.prems" show ?thesis by simp
  next
    case notq: False
    show ?thesis
    proof (cases "c = BACKSLASH")
      case True
      with notq "2.prems" obtain d ds m where cs: "cs = d # ds" and nl: "\<not> isLineTerminator d"
        and m: "quotedRun q ds = Some m" and n: "n = m + 2"
        by (auto split: list.splits if_splits)
      from "2.IH"(1) [OF notq True cs nl m] n cs show ?thesis by auto
    next
      case False
      with notq "2.prems" obtain m where m: "quotedRun q cs = Some m" and n: "n = Suc m"
        by auto
      from "2.IH"(2) [OF notq False m] n show ?thesis by auto
    qed
  qed
qed

lemma quotedRun_absent: "q \<notin> set s \<Longrightarrow> quotedRun q s = None"
proof (rule ccontr)
  assume a: "q \<notin> set s" and "quotedRun q s \<noteq> None"
  then obtain n where "quotedRun q s = Some n" by auto
  from quotedRun_Some [OF this] have "n - 1 < length s" "s ! (n - 1) = q" by auto
  then have "q \<in> set s" using nth_mem by blast
  with a show False by simp
qed

lemma alt_quoted_Some:
  "alt_quoted q s = Some n \<Longrightarrow> 2 \<le> n \<and> n \<le> length s \<and> hd s = q \<and> s ! (n - 1) = q"
  by (cases s) (auto simp: alt_quoted_def split: if_splits dest!: quotedRun_Some)

lemma boundaryEnd_Some: "boundaryEnd prev s n = Some r \<Longrightarrow> r = n"
  by (simp add: boundaryEnd_def split: if_splits)

lemma alt_ident_Some: "alt_ident prev s = Some n \<Longrightarrow> 1 \<le> n"
  by (cases s)
     (auto simp: alt_ident_def split: if_splits dest!: orElse_Some tryDown_Some boundaryEnd_Some)

lemma alt_fraction_Some: "alt_fraction prev s n = Some r \<Longrightarrow> 1 \<le> r"
  by (auto simp: alt_fraction_def split: if_splits dest!: tryDown_Some boundaryEnd_Some)

lemma alt_number_Some: "alt_number prev s = Some n \<Longrightarrow> 1 \<le> n"
  by (auto simp: alt_number_def split: if_splits
           dest!: tryDown_Some orElse_Some boundaryEnd_Some alt_fraction_Some)

lemma alt_space_Some: "alt_space s = Some n \<Longrightarrow> 1 \<le> n"
  by (auto simp: alt_space_def dest!: tryDown_Some)

lemma alt_any_Some: "alt_any s = Some n \<Longrightarrow> n = 1"
  by (cases s) (auto simp: alt_any_def split: if_splits)

lemma matchAt_pos: "matchAt prev s = Some n \<Longrightarrow> 1 \<le> n"
  unfolding matchAt_def
  by (auto dest!: orElse_Some alt_quoted_Some alt_ident_Some alt_number_Some alt_space_Some
                  alt_any_Some)

lemma lineTerminator_ws: "isLineTerminator c \<Longrightarrow> isWhiteSpace c"
  by (simp add: isWhiteSpace_def)

lemma alt_space_or_any:
  assumes "s \<noteq> []"
  shows "alt_space s \<noteq> None \<or> alt_any s \<noteq> None"
proof -
  from assms obtain c cs where s: "s = c # cs" by (cases s) auto
  show ?thesis
  proof (cases "isLineTerminator c")
    case True
    then have "isWhiteSpace c" by (rule lineTerminator_ws)
    then obtain k where "length (takeWhile isWhiteSpace s) = Suc k"
      using s by auto
    then show ?thesis by (simp add: alt_space_def)
  next
    case False
    then show ?thesis using s by (simp add: alt_any_def)
  qed
qed

lemma matchAt_total: "s \<noteq> [] \<Longrightarrow> matchAt prev s \<noteq> None"
  using alt_space_or_any [of s] by (auto simp: matchAt_def orElse_None_iff)

lemma matchAll_lossless:
  "concat (matchAll prev s) = s \<and> [] \<notin> set (matchAll prev s)"
proof (induction prev s rule: matchAll.induct)
  case (1 prev)
  show ?case by simp
next
  case (2 prev c cs)
  from matchAt_total [of "c # cs" prev] obtain n where n: "matchAt prev (c # cs) = Some n"
    by auto
  from matchAt_pos [OF n] have pos: "max 1 n = n" "n \<noteq> 0" by auto
  from "2.IH"(2) [OF n] pos n show ?case
    by (cases n) auto
qed


section \<open>Facts about the tokenizer\<close>

lemma commentScan_range:
  "commentScan a b e i s = r \<Longrightarrow> r \<noteq> -1 \<Longrightarrow> int i \<le> r \<and> r < int i + int (length s)"
proof (induction a b e i s rule: commentScan.induct)
  case (1 inSingle inDouble escaped i)
  then show ?case by simp
next
  case (2 inSingle inDouble escaped i ch rest)
  show ?case
  proof (cases "\<not> escaped \<and> ch \<noteq> BACKSLASH \<and> \<not> (\<not> inDouble \<and> ch = SQUOTE) \<and>
                \<not> (\<not> inSingle \<and> ch = DQUOTE) \<and> \<not> inSingle \<and> \<not> inDouble \<and> ch = HASH")
    case True
    with "2.prems" show ?thesis by auto
  next
    case False
    then show ?thesis
      using "2.prems" "2.IH" by (auto split: if_splits)
  qed
qed

lemma commentAt_range: "commentAt line \<noteq> -1 \<Longrightarrow> 0 \<le> commentAt line \<and> commentAt line < int (length line)"
  using commentScan_range [of False False False 0 line "commentAt line"]
  by (simp add: commentAt_def)

lemma code_comment_parts: "codePart line @ commentPart line = line"
  by (simp add: codePart_def commentPart_def slice_def)


lemma renderToken_text: "t \<noteq> [] \<Longrightarrow> \<exists>k. renderToken t = Some (k, t)"
  by (simp add: renderToken_def)

lemma renderToken_tokenText: "t \<noteq> [] \<Longrightarrow> tokenText (renderToken t) = t"
  using renderToken_text [of t] by auto


lemma rendered_texts: "[] \<notin> set ts \<Longrightarrow> map tokenText (map renderToken ts) = ts"
  by (induction ts) (auto simp: renderToken_tokenText)

lemma rendered_not_null: "[] \<notin> set ts \<Longrightarrow> None \<notin> set (map renderToken ts)"
  by (induction ts) (auto simp: renderToken_def)

lemma tokenize_unfold:
  "tokenizePythonLine line =
     map renderToken (matchAll None (codePart line)) @
     (if commentPart line \<noteq> [] then [Some (TokComment, commentPart line)] else [])"
  by (simp add: tokenizePythonLine_def Let_def)

lemma tokenize_texts:
  "None \<notin> set (tokenizePythonLine line) \<and>
   [] \<notin> set (map tokenText (tokenizePythonLine line)) \<and>
   concat (map tokenText (tokenizePythonLine line)) = line"
proof -
  let ?ts = "matchAll None (codePart line)"
  have ne: "[] \<notin> set ?ts" and cc: "concat ?ts = codePart line"
    using matchAll_lossless [of None "codePart line"] by simp_all
  have a: "None \<notin> set (tokenizePythonLine line)"
    using rendered_not_null [OF ne] by (simp add: tokenize_unfold)
  have "map tokenText (map renderToken ?ts) = ?ts"
    using ne by (rule rendered_texts)
  then have m: "map tokenText (tokenizePythonLine line) =
       ?ts @ (if commentPart line \<noteq> [] then [commentPart line] else [])"
    by (simp add: tokenize_unfold)
  have b: "[] \<notin> set (map tokenText (tokenizePythonLine line))"
    unfolding m using ne by simp
  have c: "concat (map tokenText (tokenizePythonLine line)) = line"
    unfolding m using cc code_comment_parts [of line] by auto
  from a b c show ?thesis by blast
qed

lemma startsWith_single: "startsWith t [q] \<longleftrightarrow> (t \<noteq> [] \<and> hd t = q)"
  by (cases t) (auto simp: startsWith_def)

lemma renderToken_priority:
  assumes "t \<noteq> []"
  shows "renderToken t = Some
     (if \<forall>c\<in>set t. isWhiteSpace c then TokWhitespace
      else if hd t = DQUOTE \<or> hd t = SQUOTE then TokString
      else if isDigit (hd t) then TokNumber
      else if t \<in> set PY_KEYWORDS then TokKeyword
      else if t \<in> set PY_BUILTINS then TokBuiltin
      else TokPlain, t)"
proof -
  obtain c cs where t: "t = c # cs" using assms by (cases t) auto
  show ?thesis
    unfolding renderToken_def startsWith_single length_0_conv trim_Nil_iff
    by (auto simp: t)
qed

lemma example_print:
  \<open>tokenizePythonLine (js ''print("Hola, Python")'') =
     [Some (TokBuiltin, js ''print''), Some (TokPlain, js ''(''),
      Some (TokString, js ''"Hola, Python"''), Some (TokPlain, js '')'')]\<close>
  by code_simp


lemma quote_facts:
  "q = DQUOTE \<or> q = SQUOTE \<Longrightarrow>
     \<not> isIdentStart q \<and> \<not> isDigit q \<and> \<not> isWhiteSpace q \<and> \<not> isLineTerminator q \<and> q \<noteq> BACKSLASH \<and> q \<noteq> HASH"
  by (auto simp: DQUOTE_def SQUOTE_def BACKSLASH_def HASH_def isIdentStart_def isDigit_def isWhiteSpace_def
        isLineTerminator_def)

lemma DQUOTE_neq_SQUOTE: "DQUOTE \<noteq> SQUOTE"
  by (simp add: DQUOTE_def SQUOTE_def)

lemma matchAt_quote_fallback:
  assumes q: "q = DQUOTE \<or> q = SQUOTE"
    and none: "alt_quoted q (q # cs) = None"
  shows "matchAt prev (q # cs) = Some 1"
proof -
  note f = quote_facts [OF q]
  have other: "alt_quoted DQUOTE (q # cs) = None" "alt_quoted SQUOTE (q # cs) = None"
    using q none DQUOTE_neq_SQUOTE by (auto simp: alt_quoted_def)
  have "alt_ident prev (q # cs) = None" using f by (simp add: alt_ident_def)
  moreover have "alt_number prev (q # cs) = None" using f by (simp add: alt_number_def)
  moreover have "alt_space (q # cs) = None" using f by (simp add: alt_space_def)
  moreover have "alt_any (q # cs) = Some 1" using f by (simp add: alt_any_def)
  ultimately show ?thesis using other by (simp add: matchAt_def)
qed

lemma matchAt_quote:
  assumes q: "q = DQUOTE \<or> q = SQUOTE"
    and m: "matchAt prev (q # cs) = Some n"
  shows "n = 1 \<or> (2 \<le> n \<and> n \<le> length (q # cs) \<and> (q # cs) ! (n - 1) = q)"
proof (cases "alt_quoted q (q # cs)")
  case None
  from matchAt_quote_fallback [OF q None, of prev] m show ?thesis by simp
next
  case (Some k)
  have other: "q = DQUOTE \<Longrightarrow> alt_quoted DQUOTE (q # cs) = Some k"
     "q = SQUOTE \<Longrightarrow> alt_quoted DQUOTE (q # cs) = None"
    using Some DQUOTE_neq_SQUOTE by (auto simp: alt_quoted_def)
  then have "matchAt prev (q # cs) = Some k"
    using q Some by (auto simp: matchAt_def)
  with m have "n = k" by simp
  with alt_quoted_Some [OF Some] show ?thesis by simp
qed

lemma matchAll_quoted:
  "t \<in> set (matchAll prev s) \<Longrightarrow> hd t = DQUOTE \<or> hd t = SQUOTE \<Longrightarrow>
     t = [hd t] \<or> (2 \<le> length t \<and> last t = hd t)"
proof (induction prev s rule: matchAll.induct)
  case (1 prev)
  then show ?case by simp
next
  case (2 prev c cs)
  from matchAt_total [of "c # cs" prev] obtain n where n: "matchAt prev (c # cs) = Some n"
    by auto
  from matchAt_pos [OF n] have pos: "1 \<le> n" .
  from "2.prems"(1) n
  have "t = take n (c # cs) \<or>
        t \<in> set (matchAll (Some (last (take (max 1 n) (c # cs)))) (drop (max 1 n) (c # cs)))"
    by simp
  then show ?case
  proof
    assume t: "t = take n (c # cs)"
    with pos have hd: "hd t = c" by (cases n) auto
    with "2.prems"(2) have q: "c = DQUOTE \<or> c = SQUOTE" by simp
    from matchAt_quote [OF q n]
    show ?thesis
    proof
      assume "n = 1"
      with t show ?thesis by simp
    next
      assume h: "2 \<le> n \<and> n \<le> length (c # cs) \<and> (c # cs) ! (n - 1) = c"
      then have len: "length t = n" using t by simp
      have "t \<noteq> []" using len h by auto
      then have "last t = t ! (n - 1)" using len by (simp add: last_conv_nth)
      also have "\<dots> = (c # cs) ! (n - 1)" using t h by simp
      also have "\<dots> = c" using h by blast
      finally have "last t = hd t" using hd by simp
      moreover have "2 \<le> length t" using h len by simp
      ultimately show ?thesis by blast
    qed
  next
    assume "t \<in> set (matchAll (Some (last (take (max 1 n) (c # cs)))) (drop (max 1 n) (c # cs)))"
    from "2.IH"(2) [OF n this "2.prems"(2)] show ?thesis .
  qed
qed

lemma renderToken_Some: "renderToken t = Some (k, u) \<Longrightarrow> u = t \<and> t \<noteq> []"
  by (auto simp: renderToken_def split: if_splits)

lemma renderToken_String: "renderToken t = Some (TokString, u) \<Longrightarrow> hd t = DQUOTE \<or> hd t = SQUOTE"
  by (auto simp: renderToken_def startsWith_single split: if_splits)

lemma string_tokens:
  assumes "Some (TokString, t) \<in> set (tokenizePythonLine line)"
  shows "t = [DQUOTE] \<or> t = [SQUOTE] \<or>
         (2 \<le> length t \<and> (hd t = DQUOTE \<or> hd t = SQUOTE) \<and> last t = hd t)"
proof -
  from assms obtain l where l: "l \<in> set (matchAll None (codePart line))"
      and r: "renderToken l = Some (TokString, t)"
    by (auto simp: tokenize_unfold split: if_splits)
  from renderToken_Some [OF r] have "t = l" by simp
  with r renderToken_String have q: "hd t = DQUOTE \<or> hd t = SQUOTE" by blast
  from matchAll_quoted [OF l] q \<open>t = l\<close>
  have "t = [hd t] \<or> (2 \<le> length t \<and> last t = hd t)" by simp
  with q show ?thesis by auto
qed

lemma commentScan_in_quote:
  assumes q: "q = DQUOTE \<or> q = SQUOTE" and "q \<notin> set rest"
  shows "commentScan (q = SQUOTE) (q = DQUOTE) e i rest = -1"
  using assms(2)
proof (induction rest arbitrary: e i)
  case Nil
  show ?case by simp
next
  case (Cons ch rest)
  then have "ch \<noteq> q" "q \<notin> set rest" by auto
  with Cons.IH q DQUOTE_neq_SQUOTE show ?case by auto
qed

lemma commentAt_open_quote:
  assumes q: "q = DQUOTE \<or> q = SQUOTE" and "q \<notin> set rest"
  shows "commentAt (q # rest) = -1"
  using commentScan_in_quote [OF assms, of False 1] quote_facts [OF q] q DQUOTE_neq_SQUOTE
  by (auto simp: commentAt_def)

lemma tokenize_open_quote:
  assumes q: "q = DQUOTE \<or> q = SQUOTE" and absent: "q \<notin> set rest"
  shows "tokenizePythonLine (q # rest) =
           Some (TokString, [q]) # map renderToken (matchAll (Some q) rest)"
proof -
  have c: "commentAt (q # rest) = -1" using commentAt_open_quote [OF assms] .
  have "alt_quoted q (q # rest) = None"
    using quotedRun_absent [OF absent] by (simp add: alt_quoted_def)
  from matchAt_quote_fallback [OF q this]
  have "matchAll None (q # rest) = [q] # matchAll (Some q) rest" by simp
  moreover have "renderToken [q] = Some (TokString, [q])"
    using renderToken_priority [of "[q]"] quote_facts [OF q] q by auto
  ultimately show ?thesis
    by (simp add: tokenize_unfold codePart_def commentPart_def c)
qed


section \<open>Facts about the inline renderer and the colour names\<close>

lemma matchCode_Some:
  "matchCode s = Some n \<Longrightarrow>
     \<exists>cs. s = BACKTICK # cs \<and> 1 \<le> n \<and> n < length cs \<and> cs ! n = BACKTICK"
  by (cases s) (auto simp: matchCode_def split: if_splits dest!: tryDown_Some)

lemma matchCode_other: "c \<noteq> BACKTICK \<Longrightarrow> matchCode (c # cs) = None"
  by (simp add: matchCode_def)

lemma matchCode_unclosed: "BACKTICK \<notin> set cs \<Longrightarrow> matchCode (c # cs) = None"
proof (rule ccontr)
  assume a: "BACKTICK \<notin> set cs" and "matchCode (c # cs) \<noteq> None"
  then obtain n where "matchCode (c # cs) = Some n" by auto
  from matchCode_Some [OF this] have n: "n < length cs" and b: "cs ! n = BACKTICK" by auto
  from n have "cs ! n \<in> set cs" by (rule nth_mem)
  with a b show False by simp
qed

lemma splitCode_odd: "odd (length (splitCode acc s))"
  by (induction acc s rule: splitCode.induct) (auto split: option.splits)

lemma splitCode_source:
  "even k \<Longrightarrow>
   concat (map inlineSource (map renderPart (enumerate k (splitCode acc s)))) = acc @ s"
proof (induction acc s arbitrary: k rule: splitCode.induct)
  case (1 acc)
  then show ?case by (simp add: renderPart_def even_iff_mod_2_eq_zero)
next
  case (2 acc c cs)
  show ?case
  proof (cases "matchCode (c # cs)")
    case None
    with "2.IH"(1) [OF None "2.prems"] show ?thesis by simp
  next
    case (Some n)
    from matchCode_Some [OF Some] have c: "c = BACKTICK" and n: "n < length cs" "cs ! n = BACKTICK"
      by auto
    have ev: "even (Suc (Suc k))" using "2.prems" by simp
    have od: "Suc k mod 2 = 1" "k mod 2 = 0" using "2.prems" by (auto simp: even_iff_mod_2_eq_zero mod_Suc)
    have cs: "cs = take n cs @ BACKTICK # drop (Suc n) cs"
      using n id_take_nth_drop [of n cs] by simp
    have "concat (map inlineSource (map renderPart (enumerate k (splitCode acc (c # cs))))) =
          acc @ BACKTICK # take n cs @ BACKTICK # drop (Suc n) cs"
      using "2.IH"(2) [OF Some ev] Some od by (simp add: renderPart_def)
    then show ?thesis using cs c by simp
  qed
qed

lemma RichText_unfold: "RichText text = map renderPart (enumerate 0 (splitCode [] text))"
  by (simp add: RichText_def)

lemma RichText_source: "concat (map inlineSource (RichText s)) = s"
  using splitCode_source [of 0 "[]" s] by (simp add: RichText_unfold)

lemma RichText_length_odd: "odd (length (RichText s))"
  by (simp add: RichText_unfold splitCode_odd)

lemma RichText_alternates:
  "i < length (RichText s) \<Longrightarrow> isCodeEl (RichText s ! i) \<longleftrightarrow> odd i"
  by (simp add: RichText_unfold renderPart_def nth_enumerate_eq odd_iff_mod_2_eq_one)

lemma splitCode_no_match:
  "BACKTICK \<notin> set s \<Longrightarrow> splitCode acc s = [acc @ s]"
proof (induction s arbitrary: acc)
  case Nil
  show ?case by simp
next
  case (Cons c cs)
  then have "c \<noteq> BACKTICK" by auto
  then have "matchCode (c # cs) = None" by (rule matchCode_other)
  with Cons show ?case by simp
qed

lemma splitCode_single_backtick:
  "BACKTICK \<notin> set a \<Longrightarrow> BACKTICK \<notin> set b \<Longrightarrow>
     splitCode acc (a @ BACKTICK # b) = [acc @ a @ BACKTICK # b]"
proof (induction a arbitrary: acc)
  case Nil
  then have "matchCode (BACKTICK # b) = None" by (simp add: matchCode_unclosed)
  with Nil splitCode_no_match [of b "acc @ [BACKTICK]"] show ?case by simp
next
  case (Cons c cs)
  then have "c \<noteq> BACKTICK" by auto
  then have "matchCode (c # cs @ BACKTICK # b) = None" by (rule matchCode_other)
  with Cons show ?case by simp
qed

lemma RichText_single_backtick:
  "BACKTICK \<notin> set a \<Longrightarrow> BACKTICK \<notin> set b \<Longrightarrow>
     RichText (a @ BACKTICK # b) = [SpanEl (a @ BACKTICK # b)]"
  by (simp add: RichText_unfold splitCode_single_backtick renderPart_def)

lemma example_idle:
  \<open>RichText (js ''usa `IDLE` y guarda'') =
     [SpanEl (js ''usa ''), CodeEl (js ''IDLE''), SpanEl (js '' y guarda'')]\<close>
  by code_simp




section \<open>Idempotence of trimming, examples, and the shape of the section list\<close>

lemma dropWhile_fixed: "ys = [] \<or> \<not> pr (hd ys) \<Longrightarrow> dropWhile pr ys = ys"
  by (cases ys) auto

lemma hd_snoc_not: "ys = [] \<or> \<not> pr (hd ys) \<Longrightarrow> \<not> pr d \<Longrightarrow> \<not> pr (hd (ys @ [d]))"
  by (cases ys) auto

lemma trim_idem: "trim (trim s) = trim s"
proof (cases "dropWhile isWhiteSpace s")
  case Nil
  have e: "trim s = []" unfolding trim_def Nil by simp
  show ?thesis unfolding e by (simp add: trim_def)
next
  case (Cons d r)
  let ?y = "dropWhile isWhiteSpace (rev r)"
  have t: "trim s = d # rev ?y" using trim_Cons [OF Cons] .
  have nd: "\<not> isWhiteSpace d" using Cons hd_dropWhile [of isWhiteSpace s] by auto
  have "?y = [] \<or> \<not> isWhiteSpace (hd ?y)"
    using hd_dropWhile [of isWhiteSpace "rev r"] by blast
  then have "\<not> isWhiteSpace (hd (?y @ [d]))" using nd by (rule hd_snoc_not)
  then have a: "dropWhile isWhiteSpace (?y @ [d]) = ?y @ [d]"
    by (intro dropWhile_fixed) simp
  have b: "dropWhile isWhiteSpace (d # rev ?y) = d # rev ?y"
    using nd by simp
  have "trim (d # rev ?y) = rev (dropWhile isWhiteSpace (rev (d # rev ?y)))"
    unfolding trim_def b ..
  also have "rev (d # rev ?y) = ?y @ [d]" by simp
  also have "rev (dropWhile isWhiteSpace (?y @ [d])) = d # rev ?y" unfolding a by simp
  finally show ?thesis unfolding t .
qed


lemma heading_4_2: "\<not> isSubHeading (js ''4.2 Something'')"
  by code_simp

lemma heading_40_5: "\<not> isSubHeading (js ''40.5'')"
  by code_simp

lemma top_40_5: "isTopLevelHeading (H (js ''40.5''))"
  by code_simp


lemma top_tema: "isTopLevelHeading (H (js ''Tema 4''))"
  by code_simp

lemma top_ejercicios: "isTopLevelHeading (H (js ''Ejercicios''))"
  by code_simp

lemma exercise_no_space: "isExerciseHeading (js ''Ejercicio1'')"
  by code_simp


lemma sub_exercise_1: "\<not> isTopLevelHeading (H (js ''Ejercicio 1 '' @ 0xB7 # js '' Something''))"
  by code_simp

lemma sub_no_space: "\<not> isTopLevelHeading (H (js ''Ejercicio1''))"
  by code_simp

lemma sub_4_2_dot: "\<not> isTopLevelHeading (H (js ''4.2. Something''))"
  by code_simp

lemma top_empty: "isTopLevelHeading (H [])"
  by code_simp

lemma sections_singleton:
  "TopicBlocks_sections [b] =
     (if isTopLevelHeading b then [\<lparr>title = headingText b, blocks = []\<rparr>]
      else [\<lparr>title = [], blocks = [b]\<rparr>])"
  using sections_snoc [of "[]" b] by (simp add: sections_Nil appendToLast_def)

lemma sections_pair:
  "TopicBlocks_sections [b, c] =
     (if isTopLevelHeading c
      then TopicBlocks_sections [b] @ [\<lparr>title = headingText c, blocks = []\<rparr>]
      else appendToLast c (TopicBlocks_sections [b]))"
  using sections_snoc [of "[b]" c] by simp

lemma sub_heading_appended:
  assumes "\<not> isTopLevelHeading (H text)"
  shows "TopicBlocks_sections (bs @ [H text]) = appendToLast (H text) (TopicBlocks_sections bs)"
  by (simp only: sections_snoc assms if_False)

lemma pattern_sub_heading:
  assumes "trim text = a @ DOT # b @ DOT # rest" "a \<noteq> []" "b \<noteq> []"
          "list_all isDigit a" "list_all isDigit b"
  shows "isSubHeading (trim text)"
proof -
  have "trim (trim text) = a @ DOT # b @ DOT # rest"
    unfolding trim_idem by (rule assms(1))
  with assms(2-5) show ?thesis
    unfolding isSubHeading_iff [of "trim text"] by blast
qed

lemma titles_unique_empty:
  assumes "\<forall>b\<in>set bs. isTopLevelHeading b \<longrightarrow> headingText b \<noteq> []"
    and "i < length (TopicBlocks_sections bs)"
    and "title (TopicBlocks_sections bs ! i) = []"
  shows "i = 0"
proof (rule ccontr)
  assume "i \<noteq> 0"
  let ?la = "leadingAnonymous bs"
  let ?hs = "map headingText (filter isTopLevelHeading bs)"
  have la: "length ?la \<le> 1" by (simp add: leadingAnonymous_def split: list.splits)
  have tt: "map title (TopicBlocks_sections bs) = ?la @ ?hs" by (rule sections_titles)
  have len: "i < length (?la @ ?hs)" using assms(2) tt by (metis length_map)
  have "(?la @ ?hs) ! i = title (TopicBlocks_sections bs ! i)"
    using assms(2) tt by (metis nth_map)
  then have e: "(?la @ ?hs) ! i = []" using assms(3) by simp
  have ge: "length ?la \<le> i" using la \<open>i \<noteq> 0\<close> by simp
  then have "(?la @ ?hs) ! i = ?hs ! (i - length ?la)" by (simp add: nth_append)
  moreover have "i - length ?la < length ?hs" using len ge by simp
  ultimately have "[] \<in> set ?hs" using e by (metis nth_mem)
  then show False using assms(1) by auto
qed


lemma splitCode_last_part:
  "BACKTICK \<notin> set b \<Longrightarrow>
   \<exists>ps t. splitCode acc (a @ BACKTICK # b) = ps @ [t] \<and> (t = b \<or> (\<exists>u. t = u @ BACKTICK # b))"
proof (induction "length a" arbitrary: a acc rule: less_induct)
  case less
  show ?case
  proof (cases a)
    case Nil
    have "matchCode (BACKTICK # b) = None" using less.prems by (rule matchCode_unclosed)
    then have "splitCode acc (a @ BACKTICK # b) = [] @ [acc @ BACKTICK # b]"
      using Nil splitCode_no_match [OF less.prems, of "acc @ [BACKTICK]"] by simp
    then show ?thesis by blast
  next
    case (Cons c cs)
    show ?thesis
    proof (cases "matchCode (c # cs @ BACKTICK # b)")
      case None
      have "length cs < length a" using Cons by simp
      from less.hyps [OF this less.prems, of "acc @ [c]"]
      obtain ps t where "splitCode (acc @ [c]) (cs @ BACKTICK # b) = ps @ [t]"
        and "t = b \<or> (\<exists>u. t = u @ BACKTICK # b)" by blast
      then show ?thesis using Cons None by simp
    next
      case (Some n)
      from matchCode_Some [OF Some]
      have n: "n < length (cs @ BACKTICK # b)" "(cs @ BACKTICK # b) ! n = BACKTICK" by auto
      have sp: "splitCode acc (a @ BACKTICK # b) =
                 acc # take n (cs @ BACKTICK # b) # splitCode [] (drop (Suc n) (cs @ BACKTICK # b))"
        using Cons Some by simp
      have "n \<le> length cs"
      proof (rule ccontr)
        assume "\<not> n \<le> length cs"
        then have "(cs @ BACKTICK # b) ! n = b ! (n - Suc (length cs))" "n - Suc (length cs) < length b"
          using n(1) by (auto simp: nth_append nth_Cons')
        then have "BACKTICK \<in> set b" using n(2) by (metis nth_mem)
        with less.prems show False by simp
      qed
      then consider "n = length cs" | "n < length cs" by linarith
      then show ?thesis
      proof cases
        case 1
        then have "drop (Suc n) (cs @ BACKTICK # b) = b" by simp
        then have "splitCode [] (drop (Suc n) (cs @ BACKTICK # b)) = [b]"
          using splitCode_no_match [OF less.prems, of "[]"] by simp
        with sp have "splitCode acc (a @ BACKTICK # b) = [acc, take n (cs @ BACKTICK # b)] @ [b]"
          by simp
        then show ?thesis by blast
      next
        case 2
        then have d: "drop (Suc n) (cs @ BACKTICK # b) = drop (Suc n) cs @ BACKTICK # b" by simp
        have "length (drop (Suc n) cs) < length a" using Cons by simp
        from less.hyps [OF this less.prems, of "[]"]
        obtain ps t where "splitCode [] (drop (Suc n) cs @ BACKTICK # b) = ps @ [t]"
          and t: "t = b \<or> (\<exists>u. t = u @ BACKTICK # b)" by blast
        with sp d have "splitCode acc (a @ BACKTICK # b) =
            (acc # take n (cs @ BACKTICK # b) # ps) @ [t]" by simp
        with t show ?thesis by blast
      qed
    qed
  qed
qed

lemma renderPart_even: "even i \<Longrightarrow> renderPart (i, seg) = SpanEl seg"
  by (simp add: renderPart_def even_iff_mod_2_eq_zero)

lemma RichText_last_plain:
  assumes "BACKTICK \<notin> set b"
  shows "\<exists>els t. RichText (a @ BACKTICK # b) = els @ [SpanEl t] \<and>
           (t = b \<or> (\<exists>u. t = u @ BACKTICK # b))"
proof -
  from splitCode_last_part [OF assms, of "[]" a]
  obtain ps t where sp: "splitCode [] (a @ BACKTICK # b) = ps @ [t]"
    and t: "t = b \<or> (\<exists>u. t = u @ BACKTICK # b)" by blast
  have "odd (length (ps @ [t]))" using splitCode_odd [of "[]" "a @ BACKTICK # b"] sp by simp
  then have ev: "even (length ps)" by simp
  have "RichText (a @ BACKTICK # b) =
          map renderPart (enumerate 0 ps) @ [renderPart (length ps, t)]"
    by (simp add: RichText_unfold sp enumerate_append_eq)
  then have "RichText (a @ BACKTICK # b) = map renderPart (enumerate 0 ps) @ [SpanEl t]"
    using renderPart_even [OF ev] by simp
  with t show ?thesis by blast
qed


section \<open>The claims\<close>

text \<open>
  Claim C1 (partition property of the Sectionizer). For every sequence of content
  blocks, the block lists of the returned sections, concatenated in order, are the
  input without its top-level headings, in the input's order; and the titles of the
  sections after the anonymous one are the texts of exactly those top-level headings,
  in order. Nothing else is dropped, repeated, moved or changed.
\<close>

theorem sections_partition:
  "concat (map blocks (TopicBlocks_sections bs)) = filter (\<lambda>b. \<not> isTopLevelHeading b) bs \<and>
   map title (drop (length (leadingAnonymous bs)) (TopicBlocks_sections bs)) =
     map headingText (filter isTopLevelHeading bs)"
proof -
  have "map title (drop (length (leadingAnonymous bs)) (TopicBlocks_sections bs)) =
        drop (length (leadingAnonymous bs)) (map title (TopicBlocks_sections bs))"
    by (simp add: drop_map)
  also have "\<dots> = map headingText (filter isTopLevelHeading bs)"
    unfolding sections_titles by simp
  finally show ?thesis using sections_blocks [of bs] by simp
qed

theorem sections_partition_witness:
  "concat (map blocks (TopicBlocks_sections
       [P (js ''a''), H (js ''4.2. Something''), H (js ''Tema 4''), CODE (js ''x'')])) =
     [P (js ''a''), H (js ''4.2. Something''), CODE (js ''x'')] \<and>
   map title (drop 1 (TopicBlocks_sections
       [P (js ''a''), H (js ''4.2. Something''), H (js ''Tema 4''), CODE (js ''x'')])) =
     [js ''Tema 4'']"
  using sections_partition
          [of "[P (js ''a''), H (js ''4.2. Something''), H (js ''Tema 4''), CODE (js ''x'')]"]
  by (simp add: leadingAnonymous_def sub_4_2_dot top_tema del: isTopLevelHeading.simps(1))

text \<open>
  Claim C2 (the tokenizer is total and lossless). For every line, with or without
  line breaks, malformed or not, \<^verbatim>\<open>tokenizePythonLine\<close> returns a list of elements
  none of which is \<^verbatim>\<open>null\<close>, each with a text that is not empty, and the texts
  concatenated in order are the line: the tokens are ordered, leave no gap and do not
  overlap.
\<close>

theorem tokenizePythonLine_lossless:
  "None \<notin> set (tokenizePythonLine line) \<and>
   [] \<notin> set (map tokenText (tokenizePythonLine line)) \<and>
   concat (map tokenText (tokenizePythonLine line)) = line"
  by (rule tokenize_texts)

theorem tokenizePythonLine_lossless_witness:
  \<open>tokenizePythonLine (js ''x = "it's" # ok'') =
     [Some (TokPlain, js ''x''), Some (TokWhitespace, js '' ''), Some (TokPlain, js ''=''),
      Some (TokWhitespace, js '' ''), Some (TokString, js ''"it's"''),
      Some (TokWhitespace, js '' ''), Some (TokComment, js ''# ok'')] \<and>
   concat (map tokenText (tokenizePythonLine (js ''x = "it's" # ok''))) = js ''x = "it's" # ok''\<close>
proof -
  have \<open>tokenizePythonLine (js ''x = "it's" # ok'') =
     [Some (TokPlain, js ''x''), Some (TokWhitespace, js '' ''), Some (TokPlain, js ''=''),
      Some (TokWhitespace, js '' ''), Some (TokString, js ''"it's"''),
      Some (TokWhitespace, js '' ''), Some (TokComment, js ''# ok'')]\<close>
    by code_simp
  then show ?thesis
    using tokenizePythonLine_lossless [of \<open>js ''x = "it's" # ok''\<close>] by blast
qed

text \<open>
  Claim C3 (sub-heading numeric pattern), as the code has it. \<^verbatim>\<open>isSubHeading\<close>
  holds exactly when the trimmed text begins with a run of ASCII digits, a dot,
  a second run of ASCII digits and a second dot, both runs non-empty, as in
  \<^verbatim>\<open>4.2. Something\<close>; the fold appends such a heading to the current section and
  starts no new section. The second dot is required: \<^verbatim>\<open>4.2 Something\<close> and
  \<^verbatim>\<open>40.5\<close> are not sub-headings.
\<close>

theorem isSubHeading_pattern:
  "(isSubHeading t \<longleftrightarrow>
      (\<exists>a b rest. trim t = a @ DOT # b @ DOT # rest \<and> a \<noteq> [] \<and> b \<noteq> [] \<and>
         list_all isDigit a \<and> list_all isDigit b)) \<and>
   ((\<exists>a b rest. trim text = a @ DOT # b @ DOT # rest \<and> a \<noteq> [] \<and> b \<noteq> [] \<and>
         list_all isDigit a \<and> list_all isDigit b) \<longrightarrow>
      TopicBlocks_sections (bs @ [H text]) = appendToLast (H text) (TopicBlocks_sections bs))"
proof (intro conjI impI)
  show "isSubHeading t \<longleftrightarrow>
      (\<exists>a b rest. trim t = a @ DOT # b @ DOT # rest \<and> a \<noteq> [] \<and> b \<noteq> [] \<and>
         list_all isDigit a \<and> list_all isDigit b)"
    by (rule isSubHeading_iff)
next
  assume "\<exists>a b rest. trim text = a @ DOT # b @ DOT # rest \<and> a \<noteq> [] \<and> b \<noteq> [] \<and>
         list_all isDigit a \<and> list_all isDigit b"
  then have "isSubHeading (trim text)" using pattern_sub_heading by blast
  then have "\<not> isTopLevelHeading (H text)" by simp
  then show "TopicBlocks_sections (bs @ [H text]) = appendToLast (H text) (TopicBlocks_sections bs)"
    by (rule sub_heading_appended)
qed

theorem isSubHeading_pattern_witness:
  "trim (js ''4.2. Something'') = js ''4'' @ DOT # js ''2'' @ DOT # js '' Something'' \<and>
   js ''4'' \<noteq> [] \<and> js ''2'' \<noteq> [] \<and> list_all isDigit (js ''4'') \<and> list_all isDigit (js ''2'') \<and>
   isSubHeading (js ''4.2. Something'') \<and>
   TopicBlocks_sections ([P (js ''a'')] @ [H (js ''4.2. Something'')]) =
     [\<lparr>title = [], blocks = [P (js ''a''), H (js ''4.2. Something'')]\<rparr>]"
proof -
  have p: "trim (js ''4.2. Something'') = js ''4'' @ DOT # js ''2'' @ DOT # js '' Something'' \<and>
      js ''4'' \<noteq> [] \<and> js ''2'' \<noteq> [] \<and> list_all isDigit (js ''4'') \<and> list_all isDigit (js ''2'')"
    by code_simp
  have s: "TopicBlocks_sections [P (js ''a'')] = [\<lparr>title = [], blocks = [P (js ''a'')]\<rparr>]"
    by (simp add: sections_singleton)
  from p isSubHeading_pattern [of "js ''4.2. Something''" "js ''4.2. Something''" "[P (js ''a'')]"]
  have "isSubHeading (js ''4.2. Something'')"
    and "TopicBlocks_sections ([P (js ''a'')] @ [H (js ''4.2. Something'')]) =
           appendToLast (H (js ''4.2. Something'')) (TopicBlocks_sections [P (js ''a'')])"
    by blast+
  then show ?thesis using p by (simp add: s appendToLast_def)
qed

theorem isSubHeading_counterexample:
  "\<not> isSubHeading (js ''40.5'') \<and> \<not> isSubHeading (js ''4.2 Something'') \<and>
   TopicBlocks_sections [P (js ''a''), H (js ''40.5'')] =
     [\<lparr>title = [], blocks = [P (js ''a'')]\<rparr>, \<lparr>title = js ''40.5'', blocks = []\<rparr>]"
  using heading_40_5 heading_4_2 top_40_5
  by (simp add: sections_pair sections_singleton del: isTopLevelHeading.simps(1))

text \<open>
  Claim C4 (unterminated string tokens), as the code has it. The tokenizer never
  fails, but a string-literal token never runs to the end of the line without its
  closing quote: every string-literal token is a quote character alone, or begins
  with a quote and ends with the same quote. In a line that opens with a quote which
  occurs nowhere else in it, the first token is that quote character alone, the rest
  of the line is matched by the same pattern after it (a \<^verbatim>\<open>#\<close> there starts no
  comment), and no element is \<^verbatim>\<open>null\<close>.
\<close>

theorem string_token_shape:
  "(Some (TokString, t) \<in> set (tokenizePythonLine line) \<longrightarrow>
      t = [DQUOTE] \<or> t = [SQUOTE] \<or>
      (2 \<le> length t \<and> (hd t = DQUOTE \<or> hd t = SQUOTE) \<and> last t = hd t)) \<and>
   ((q = DQUOTE \<or> q = SQUOTE) \<and> q \<notin> set rest \<longrightarrow>
      tokenizePythonLine (q # rest) =
        Some (TokString, [q]) # map renderToken (matchAll (Some q) rest) \<and>
      None \<notin> set (tokenizePythonLine (q # rest)) \<and>
      concat (map tokenText (tokenizePythonLine (q # rest))) = q # rest)"
  using string_tokens [of t line] tokenize_open_quote [of q rest] tokenize_texts [of "q # rest"]
  by blast

theorem string_token_shape_witness:
  "(DQUOTE = DQUOTE \<or> DQUOTE = SQUOTE) \<and> DQUOTE \<notin> set (js ''abc # d'') \<and>
   Some (TokString, [DQUOTE]) \<in> set (tokenizePythonLine (DQUOTE # js ''abc # d'')) \<and>
   tokenizePythonLine (DQUOTE # js ''abc # d'') =
     Some (TokString, [DQUOTE]) # map renderToken (matchAll (Some DQUOTE) (js ''abc # d'')) \<and>
   map renderToken (matchAll (Some DQUOTE) (js ''abc # d'')) =
     [Some (TokPlain, js ''abc''), Some (TokWhitespace, js '' ''), Some (TokPlain, js ''#''),
      Some (TokWhitespace, js '' ''), Some (TokPlain, js ''d'')]"
proof -
  have h: "DQUOTE \<notin> set (js ''abc # d'')" by code_simp
  have v: "map renderToken (matchAll (Some DQUOTE) (js ''abc # d'')) =
     [Some (TokPlain, js ''abc''), Some (TokWhitespace, js '' ''), Some (TokPlain, js ''#''),
      Some (TokWhitespace, js '' ''), Some (TokPlain, js ''d'')]"
    by code_simp
  from h string_token_shape [of "[DQUOTE]" "DQUOTE # js ''abc # d''" DQUOTE "js ''abc # d''"]
  have e: "tokenizePythonLine (DQUOTE # js ''abc # d'') =
     Some (TokString, [DQUOTE]) # map renderToken (matchAll (Some DQUOTE) (js ''abc # d''))"
    by blast
  then have "Some (TokString, [DQUOTE]) \<in> set (tokenizePythonLine (DQUOTE # js ''abc # d''))"
    by simp
  with h e v show ?thesis by blast
qed

theorem unterminated_quote_counterexample:
  \<open>tokenizePythonLine (js ''"abc'') = [Some (TokString, js ''"''), Some (TokPlain, js ''abc'')] \<and>
   tokenizePythonLine (js ''"abc'') \<noteq> [Some (TokString, js ''"abc'')]\<close>
  by code_simp

text \<open>
  Claim C5 (exercise-heading rule), as the code has it. \<^verbatim>\<open>isExerciseHeading\<close> holds
  exactly when the trimmed, lower-cased text begins with \<^verbatim>\<open>ejercicio\<close>, then any
  number of whitespace characters, none included, then an ASCII digit. So
  \<^verbatim>\<open>Ejercicio 1 \<cdot> Something\<close> is a sub-heading, appended to the current section,
  and \<^verbatim>\<open>Ejercicios\<close> is a top-level heading that starts a new titled section.
\<close>

theorem isExerciseHeading_pattern:
  "(isExerciseHeading t \<longleftrightarrow>
      (\<exists>ws d rest. toLowerCase (trim t) = js ''ejercicio'' @ ws @ d # rest \<and>
         list_all isWhiteSpace ws \<and> isDigit d)) \<and>
   TopicBlocks_sections (bs @ [H (js ''Ejercicio 1 '' @ 0xB7 # js '' Something'')]) =
     appendToLast (H (js ''Ejercicio 1 '' @ 0xB7 # js '' Something'')) (TopicBlocks_sections bs) \<and>
   TopicBlocks_sections (bs @ [H (js ''Ejercicios'')]) =
     TopicBlocks_sections bs @ [\<lparr>title = js ''Ejercicios'', blocks = []\<rparr>]"
proof (intro conjI)
  show "isExerciseHeading t \<longleftrightarrow>
      (\<exists>ws d rest. toLowerCase (trim t) = js ''ejercicio'' @ ws @ d # rest \<and>
         list_all isWhiteSpace ws \<and> isDigit d)"
    by (rule isExerciseHeading_iff)
  show "TopicBlocks_sections (bs @ [H (js ''Ejercicio 1 '' @ 0xB7 # js '' Something'')]) =
     appendToLast (H (js ''Ejercicio 1 '' @ 0xB7 # js '' Something'')) (TopicBlocks_sections bs)"
    using sub_exercise_1 by (rule sub_heading_appended)
  show "TopicBlocks_sections (bs @ [H (js ''Ejercicios'')]) =
     TopicBlocks_sections bs @ [\<lparr>title = js ''Ejercicios'', blocks = []\<rparr>]"
    by (simp only: sections_snoc top_ejercicios if_True headingText.simps)
qed

theorem isExerciseHeading_pattern_witness:
  "toLowerCase (trim (js ''Ejercicio 1 '' @ 0xB7 # js '' Something'')) =
     js ''ejercicio'' @ js '' '' @ 0x31 # (js '' '' @ 0xB7 # js '' something'') \<and>
   list_all isWhiteSpace (js '' '') \<and> isDigit 0x31 \<and>
   isExerciseHeading (js ''Ejercicio 1 '' @ 0xB7 # js '' Something'')"
proof -
  have h: "toLowerCase (trim (js ''Ejercicio 1 '' @ 0xB7 # js '' Something'')) =
     js ''ejercicio'' @ js '' '' @ 0x31 # (js '' '' @ 0xB7 # js '' something'') \<and>
   list_all isWhiteSpace (js '' '') \<and> isDigit 0x31"
    by code_simp
  then show ?thesis
    using isExerciseHeading_pattern [of "js ''Ejercicio 1 '' @ 0xB7 # js '' Something''" "[]"]
    by blast
qed

theorem isExerciseHeading_counterexample:
  "isExerciseHeading (js ''Ejercicio1'') \<and>
   TopicBlocks_sections [H (js ''Ejercicio1'')] =
     [\<lparr>title = [], blocks = [H (js ''Ejercicio1'')]\<rparr>]"
  using exercise_no_space sub_no_space
  by (simp add: sections_singleton del: isTopLevelHeading.simps(1))

text \<open>
  Claim C6 (priority of the classification). Every lexeme of the code part is
  classified by the first rule that applies, in this order: only whitespace, then a
  leading quote, then a leading digit, then membership in the keyword set, then
  membership in the builtin set, and plain otherwise; the elements of a line are these
  classified lexemes, followed by the comment when there is one. The line
  \<^verbatim>\<open>print("Hola, Python")\<close> gives the builtin \<^verbatim>\<open>print\<close>, the plain \<^verbatim>\<open>(\<close>, the
  string literal \<^verbatim>\<open>"Hola, Python"\<close> and the plain \<^verbatim>\<open>)\<close>.
\<close>

theorem classification_priority:
  \<open>(t \<in> set (matchAll None (codePart line)) \<longrightarrow>
      renderToken t = Some
        (if \<forall>c\<in>set t. isWhiteSpace c then TokWhitespace
         else if hd t = DQUOTE \<or> hd t = SQUOTE then TokString
         else if isDigit (hd t) then TokNumber
         else if t \<in> set PY_KEYWORDS then TokKeyword
         else if t \<in> set PY_BUILTINS then TokBuiltin
         else TokPlain, t)) \<and>
   tokenizePythonLine line =
     map renderToken (matchAll None (codePart line)) @
     (if commentPart line \<noteq> [] then [Some (TokComment, commentPart line)] else []) \<and>
   tokenizePythonLine (js ''print("Hola, Python")'') =
     [Some (TokBuiltin, js ''print''), Some (TokPlain, js ''(''),
      Some (TokString, js ''"Hola, Python"''), Some (TokPlain, js '')'')]\<close>
proof (intro conjI impI)
  assume "t \<in> set (matchAll None (codePart line))"
  then have "t \<noteq> []" using matchAll_lossless [of None "codePart line"] by auto
  then show "renderToken t = Some
        (if \<forall>c\<in>set t. isWhiteSpace c then TokWhitespace
         else if hd t = DQUOTE \<or> hd t = SQUOTE then TokString
         else if isDigit (hd t) then TokNumber
         else if t \<in> set PY_KEYWORDS then TokKeyword
         else if t \<in> set PY_BUILTINS then TokBuiltin
         else TokPlain, t)"
    by (rule renderToken_priority)
next
  show "tokenizePythonLine line =
     map renderToken (matchAll None (codePart line)) @
     (if commentPart line \<noteq> [] then [Some (TokComment, commentPart line)] else [])"
    by (rule tokenize_unfold)
next
  show \<open>tokenizePythonLine (js ''print("Hola, Python")'') =
     [Some (TokBuiltin, js ''print''), Some (TokPlain, js ''(''),
      Some (TokString, js ''"Hola, Python"''), Some (TokPlain, js '')'')]\<close>
    by (rule example_print)
qed

theorem classification_priority_witness:
  \<open>js ''if'' \<in> set (matchAll None (codePart (js ''if x: # y''))) \<and>
   renderToken (js ''if'') = Some (TokKeyword, js ''if'')\<close>
proof -
  have h: \<open>js ''if'' \<in> set (matchAll None (codePart (js ''if x: # y'')))\<close>
    by code_simp
  have k: \<open>(if \<forall>c\<in>set (js ''if''). isWhiteSpace c then TokWhitespace
         else if hd (js ''if'') = DQUOTE \<or> hd (js ''if'') = SQUOTE then TokString
         else if isDigit (hd (js ''if'')) then TokNumber
         else if js ''if'' \<in> set PY_KEYWORDS then TokKeyword
         else if js ''if'' \<in> set PY_BUILTINS then TokBuiltin
         else TokPlain) = TokKeyword\<close>
    by code_simp
  from h classification_priority [of "js ''if''" "js ''if x: # y''"]
  show ?thesis unfolding k by blast
qed

text \<open>
  Claim C7 (the inline renderer alternates and round-trips). For every string,
  \<^verbatim>\<open>RichText\<close> returns an odd number of elements, plain at the even indices and
  code at the odd ones, so the first and the last are plain; putting the backticks
  back around the code elements and concatenating gives the string. What follows the
  last backtick of a string is at the end of the last, plain element: that element is
  the text after the backtick when the backtick closes a code span, and otherwise it
  ends with the backtick and the text after it. A string with a single backtick is one
  plain element that holds the whole string. The string \<^verbatim>\<open>usa `IDLE` y guarda\<close>
  gives the plain \<^verbatim>\<open>usa \<close>, the code \<^verbatim>\<open>IDLE\<close> and the plain \<^verbatim>\<open> y guarda\<close>.
\<close>

theorem RichText_roundtrip:
  "concat (map inlineSource (RichText s)) = s \<and>
   odd (length (RichText s)) \<and>
   (\<forall>i < length (RichText s). isCodeEl (RichText s ! i) \<longleftrightarrow> odd i) \<and>
   (BACKTICK \<notin> set b \<longrightarrow>
      (\<exists>els t. RichText (a @ BACKTICK # b) = els @ [SpanEl t] \<and>
         (t = b \<or> (\<exists>u. t = u @ BACKTICK # b)))) \<and>
   (BACKTICK \<notin> set a \<and> BACKTICK \<notin> set b \<longrightarrow>
      RichText (a @ BACKTICK # b) = [SpanEl (a @ BACKTICK # b)]) \<and>
   RichText (js ''usa `IDLE` y guarda'') =
     [SpanEl (js ''usa ''), CodeEl (js ''IDLE''), SpanEl (js '' y guarda'')]"
  using RichText_source [of s] RichText_length_odd [of s] RichText_alternates [of _ s]
    RichText_last_plain [of b a] RichText_single_backtick [of a b] example_idle
  by blast

theorem RichText_roundtrip_witness:
  "BACKTICK \<notin> set (js ''usa '') \<and> BACKTICK \<notin> set (js ''IDLE y guarda'') \<and>
   RichText (js ''usa '' @ BACKTICK # js ''IDLE y guarda'') =
     [SpanEl (js ''usa '' @ BACKTICK # js ''IDLE y guarda'')] \<and>
   concat (map inlineSource (RichText (js ''usa `IDLE` y guarda''))) = js ''usa `IDLE` y guarda''"
proof -
  have h: "BACKTICK \<notin> set (js ''usa '') \<and> BACKTICK \<notin> set (js ''IDLE y guarda'')"
    by code_simp
  from h RichText_roundtrip [where s = "js ''usa '' @ BACKTICK # js ''IDLE y guarda''"
      and a = "js ''usa ''" and b = "js ''IDLE y guarda''"]
    RichText_roundtrip [where s = "js ''usa `IDLE` y guarda''" and a = "[]" and b = "[]"]
  show ?thesis by blast
qed

text \<open>
  Claim C8 (colour names under normalisation), as the code has it. The first-cell
  text \<^verbatim>\<open>Rojo Oscuro\<close> normalises to \<^verbatim>\<open>rojo oscuro\<close> and resolves to the same
  identifier as \<^verbatim>\<open>rojo oscuro\<close>, which is \<^verbatim>\<open>text-red-800\<close>. Normalisation keeps
  the whitespace inside a text and the match is exact, so \<^verbatim>\<open>rojo   oscuro\<close> with three
  spaces stays as it is, matches no colour name and resolves to the default
  \<^verbatim>\<open>text-slate-900\<close>.
\<close>

theorem ColorName_rojo_oscuro:
  "normalize (js ''Rojo Oscuro'') = js ''rojo oscuro'' \<and>
   ColorName (js ''Rojo Oscuro'') = ColorName (js ''rojo oscuro'') \<and>
   ColorName (js ''rojo oscuro'') = js ''text-red-800'' \<and>
   normalize (js ''rojo   oscuro'') = js ''rojo   oscuro'' \<and>
   ColorName (js ''rojo   oscuro'') = js ''text-slate-900''"
  by code_simp

theorem ColorName_spacing_counterexample:
  "ColorName (js ''rojo   oscuro'') \<noteq> ColorName (js ''rojo oscuro'')"
  by code_simp

text \<open>
  Claim C9 (the anonymous section), as the code has it. The titles of the sections
  are: an empty title first when the input opens with a block that is not a top-level
  heading, then the texts of the top-level headings of the input, in order. So an
  anonymous section is created only before any top-level heading has been seen, and
  every later section has the text of a top-level heading as its title. When no
  top-level heading of the input has an empty text, only the first section can have an
  empty title.
\<close>

theorem section_titles:
  "map title (TopicBlocks_sections bs) =
     leadingAnonymous bs @ map headingText (filter isTopLevelHeading bs) \<and>
   length (leadingAnonymous bs) \<le> 1 \<and>
   ((\<forall>b\<in>set bs. isTopLevelHeading b \<longrightarrow> headingText b \<noteq> []) \<longrightarrow>
      (\<forall>i < length (TopicBlocks_sections bs).
         title (TopicBlocks_sections bs ! i) = [] \<longrightarrow> i = 0))"
proof (intro conjI impI allI)
  show "map title (TopicBlocks_sections bs) =
     leadingAnonymous bs @ map headingText (filter isTopLevelHeading bs)"
    by (rule sections_titles)
  show "length (leadingAnonymous bs) \<le> 1"
    by (simp add: leadingAnonymous_def split: list.splits)
next
  fix i
  assume "\<forall>b\<in>set bs. isTopLevelHeading b \<longrightarrow> headingText b \<noteq> []"
    and "i < length (TopicBlocks_sections bs)"
    and "title (TopicBlocks_sections bs ! i) = []"
  then show "i = 0" by (rule titles_unique_empty)
qed

theorem section_titles_witness:
  "map title (TopicBlocks_sections [P (js ''a''), H (js ''Tema 4''), H (js ''4.2. Something'')]) =
     [[], js ''Tema 4''] \<and>
   title (TopicBlocks_sections [P (js ''a''), H (js ''Tema 4''), H (js ''4.2. Something'')] ! 1)
     \<noteq> []"
proof -
  let ?bs = "[P (js ''a''), H (js ''Tema 4''), H (js ''4.2. Something'')]"
  have ne: "js ''Tema 4'' \<noteq> []" by (simp add: js_def)
  have h: "\<forall>b\<in>set ?bs. isTopLevelHeading b \<longrightarrow> headingText b \<noteq> []"
    using sub_4_2_dot ne by (simp del: isTopLevelHeading.simps(1))
  have e: "leadingAnonymous ?bs @ map headingText (filter isTopLevelHeading ?bs) =
             [[], js ''Tema 4'']"
    using sub_4_2_dot top_tema by (simp add: leadingAnonymous_def del: isTopLevelHeading.simps(1))
  note t = section_titles [of ?bs]
  from t e have m: "map title (TopicBlocks_sections ?bs) = [[], js ''Tema 4'']" by simp
  then have "length (TopicBlocks_sections ?bs) = 2" by (metis length_map length_Cons list.size(3) numeral_2_eq_2)
  then have l: "1 < length (TopicBlocks_sections ?bs)" by simp
  from t h l have "title (TopicBlocks_sections ?bs ! 1) \<noteq> []" by auto
  with m show ?thesis by blast
qed

theorem empty_title_counterexample:
  "map title (TopicBlocks_sections [H (js ''Tema 4''), H []]) = [js ''Tema 4'', []] \<and>
   map title (TopicBlocks_sections [H [], H []]) = [[], []]"
  using top_empty top_tema
  by (simp add: sections_pair sections_singleton del: isTopLevelHeading.simps(1))



end
